theory Spec2Isabelle
  imports Main
begin

section \<open>Line patterns\<close>

text \<open>
  Strings are lists of 8-bit characters, read as the code points U+0000 to U+00FF.
  The four module-level regular expressions of \<^verbatim>\<open>main.py\<close> are used only
  through \<^verbatim>\<open>match\<close>, which anchors at the start of the line; each becomes a
  function on the line that returns what the source reads from the match object.
\<close>

definition newline :: char where
  \<open>newline = CHR 0x0A\<close>

definition dquote :: char where
  \<open>dquote = CHR 0x22\<close>

definition squote :: char where
  \<open>squote = CHR 0x27\<close>

definition is_lower :: \<open>char \<Rightarrow> bool\<close> where
  \<comment> \<open>the class \<^verbatim>\<open>[a-z]\<close>\<close>
  \<open>is_lower c = (let n = (of_char c :: nat) in 97 \<le> n \<and> n \<le> 122)\<close>

definition is_key_char :: \<open>char \<Rightarrow> bool\<close> where
  \<comment> \<open>the class \<^verbatim>\<open>[a-z-]\<close>\<close>
  \<open>is_key_char c = (is_lower c \<or> c = CHR ''-'')\<close>

definition is_space :: \<open>char \<Rightarrow> bool\<close> where
  \<comment> \<open>the class \<^verbatim>\<open>\s\<close> of a str pattern, below U+0100\<close>
  \<open>is_space c = (let n = (of_char c :: nat) in
     (9 \<le> n \<and> n \<le> 13) \<or> (28 \<le> n \<and> n \<le> 32) \<or> n = 133 \<or> n = 160)\<close>

definition literal :: \<open>string \<Rightarrow> string \<Rightarrow> string option\<close> where
  \<comment> \<open>matching a fixed text at the current position: the rest of the line, if it is there\<close>
  \<open>literal p s = (if take (length p) s = p then Some (drop (length p) s) else None)\<close>

definition property :: \<open>string \<Rightarrow> bool\<close> where
  \<comment> \<open>\<^verbatim>\<open>^[a-z][a-z-]* = (.*)\<close>: the group may be empty, so only the key and the
      separator decide; the key characters exclude the space, so the run is maximal\<close>
  \<open>property s = (case s of
       [] \<Rightarrow> False
     | c # cs \<Rightarrow> is_lower c \<and> literal '' = '' (dropWhile is_key_char cs) \<noteq> None)\<close>

definition whitespace :: \<open>string \<Rightarrow> bool\<close> where
  \<comment> \<open>\<^verbatim>\<open>^\s*$\<close>: a newline is itself in the class\<close>
  \<open>whitespace s = list_all is_space s\<close>

definition name_property :: \<open>string \<Rightarrow> string option\<close> where
  \<comment> \<open>\<^verbatim>\<open>^name = "(.*)"$\<close>, returning group 1. The dot excludes the newline and
      the dollar also matches before one final newline.\<close>
  \<open>name_property s =
     (let body = (if s \<noteq> [] \<and> last s = newline then butlast s else s) in
      case literal ''name = "'' body of
        None \<Rightarrow> None
      | Some rest \<Rightarrow>
          if rest \<noteq> [] \<and> last rest = dquote \<and> newline \<notin> set (butlast rest)
          then Some (butlast rest) else None)\<close>

definition sdist_property :: \<open>string \<Rightarrow> (string \<times> string) option\<close> where
  \<comment> \<open>\<^verbatim>\<open>^sdist = { url = "([^"]*)", hash = "sha256:([^"]*)", .*}\<close>, returning
      groups 1 and 2. Each group is followed by a quote, so it is the maximal run without
      one; the final part asks for a closing brace before any newline.\<close>
  \<open>sdist_property s =
     (case literal ''sdist = { url = "'' s of
        None \<Rightarrow> None
      | Some r1 \<Rightarrow>
          (case literal ''", hash = "sha256:'' (dropWhile (\<lambda>c. c \<noteq> dquote) r1) of
             None \<Rightarrow> None
           | Some r2 \<Rightarrow>
               (case literal ''", '' (dropWhile (\<lambda>c. c \<noteq> dquote) r2) of
                  None \<Rightarrow> None
                | Some r3 \<Rightarrow>
                    if CHR ''}'' \<in> set (takeWhile (\<lambda>c. c \<noteq> newline) r3)
                    then Some (takeWhile (\<lambda>c. c \<noteq> dquote) r1,
                               takeWhile (\<lambda>c. c \<noteq> dquote) r2)
                    else None)))\<close>

definition replace_hyphens :: \<open>string \<Rightarrow> string\<close> where
  \<comment> \<open>\<^verbatim>\<open>.replace("-", "_")\<close>\<close>
  \<open>replace_hyphens s = map (\<lambda>c. if c = CHR ''-'' then CHR ''_'' else c) s\<close>

definition rstrip_newlines :: \<open>string \<Rightarrow> string\<close> where
  \<comment> \<open>\<^verbatim>\<open>.rstrip("\n")\<close>\<close>
  \<open>rstrip_newlines s = rev (dropWhile (\<lambda>c. c = newline) (rev s))\<close>

section \<open>Errors and messages\<close>

text \<open>
  An exception is a value: its class and the parts of its message, in the order of the
  f-string. A part is literal text, an interpolated string, an interpolated integer, or
  an interpolated bound method (whose rendering holds an object address and no number).
\<close>

datatype piece = Txt string | StrVal string | IntVal nat | BoundMethod string

datatype error = EOFError \<open>piece list\<close> | ValueError \<open>piece list\<close>

section \<open>StdinReader\<close>

text \<open>
  \<open>stdin\<close> holds the lines of standard input not yet read, without their terminator;
  \<open>readline\<close> hands out the first one with its terminator, and the empty string once
  none is left. Tracing (\<^verbatim>\<open>debug\<close>) writes to standard error only and is left out;
  every \<^verbatim>\<open>peek\<close> inside a trace message is behind a \<^verbatim>\<open>has_next\<close> test.
\<close>

record reader =
  stdin :: \<open>string list\<close>
  buffer :: \<open>string option\<close>
  current_line :: nat

definition readline :: \<open>reader \<Rightarrow> string \<times> reader\<close> where
  \<open>readline r = (case stdin r of
       [] \<Rightarrow> ('''', r)
     | l # ls \<Rightarrow> (l @ [newline], r\<lparr>stdin := ls\<rparr>))\<close>

definition update_buffer :: \<open>reader \<Rightarrow> reader\<close> where
  \<open>update_buffer r =
     (case readline r of (b, r') \<Rightarrow>
        if b = '''' then r'\<lparr>buffer := None\<rparr>
        else r'\<lparr>buffer := Some (rstrip_newlines b), current_line := current_line r' + 1\<rparr>)\<close>

definition StdinReader :: \<open>string list \<Rightarrow> reader\<close> where
  \<comment> \<open>the constructor, on the lines of standard input\<close>
  \<open>StdinReader ls = update_buffer \<lparr>stdin = ls, buffer = None, current_line = 0\<rparr>\<close>

definition has_next :: \<open>reader \<Rightarrow> bool\<close> where
  \<open>has_next r = (buffer r \<noteq> None)\<close>

definition next_line :: \<open>reader \<Rightarrow> error + (string \<times> reader)\<close> where
  \<comment> \<open>the method \<^verbatim>\<open>next\<close>; its assertion cannot fail after the test, and the
      branch for it repeats the error of the test\<close>
  \<open>next_line r =
     (if \<not> has_next r then Inl (EOFError [Txt ''End of input reached''])
      else case buffer r of
             None \<Rightarrow> Inl (EOFError [Txt ''End of input reached''])
           | Some result \<Rightarrow> Inr (result, update_buffer r))\<close>

definition peek :: \<open>reader \<Rightarrow> error + string\<close> where
  \<open>peek r =
     (if \<not> has_next r then Inl (EOFError [Txt ''Cannot peek past EOF.''])
      else case buffer r of
             None \<Rightarrow> Inl (EOFError [Txt ''Cannot peek past EOF.''])
           | Some b \<Rightarrow> Inr b)\<close>

definition line :: \<open>reader \<Rightarrow> nat\<close> where
  \<open>line r = current_line r\<close>

text \<open>What a loop over the reader still has to go through: a variant for termination.\<close>

definition remaining :: \<open>reader \<Rightarrow> nat\<close> where
  \<open>remaining r = (case buffer r of None \<Rightarrow> 0 | Some _ \<Rightarrow> Suc (length (stdin r)))\<close>

lemma remaining_update_buffer:
  \<open>buffer r \<noteq> None \<Longrightarrow> remaining (update_buffer r) < remaining r\<close>
  by (auto simp: remaining_def update_buffer_def readline_def split: list.splits option.splits)

lemma next_line_remaining:
  \<open>next_line r = Inr (l, r') \<Longrightarrow> remaining r' < remaining r\<close>
  by (auto simp: next_line_def has_next_def remaining_update_buffer split: if_splits option.splits)

section \<open>The walker\<close>

definition header :: string where
  \<open>header = ''[[package]]''\<close>

function skip_initial_fields :: \<open>reader \<Rightarrow> error + reader\<close> where
  \<open>skip_initial_fields r =
     (if \<not> has_next r then Inr r
      else case peek r of
        Inl e \<Rightarrow> Inl e
      | Inr p \<Rightarrow>
          if whitespace p \<or> property p then
            (case next_line r of
               Inl e \<Rightarrow> Inl e
             | Inr (l, r') \<Rightarrow> skip_initial_fields r')
          else Inr r)\<close>
  by pat_completeness auto
termination
  by (relation \<open>measure remaining\<close>) (auto simp: next_line_remaining)

function parse_name :: \<open>reader \<Rightarrow> error + (string \<times> reader)\<close> where
  \<open>parse_name r =
     (if \<not> has_next r then Inl (ValueError [Txt ''Unexpected while parsing name.''])
      else (case next_line r of
        Inl e \<Rightarrow> Inl e
      | Inr (l, r') \<Rightarrow>
          if \<not> property l then
            Inl (ValueError [Txt (''Expected property, found '' @ [squote]), StrVal l,
                             Txt (squote # '' at line ''), BoundMethod ''StdinReader.line'',
                             Txt ''.''])
          else (case name_property l of
                  None \<Rightarrow> parse_name r'
                | Some v \<Rightarrow> Inr (replace_hyphens v, r'))))\<close>
  by pat_completeness auto
termination
  by (relation \<open>measure remaining\<close>) (auto simp: next_line_remaining)

function parse_sdist :: \<open>reader \<Rightarrow> error + ((string \<times> string) option \<times> reader)\<close> where
  \<open>parse_sdist r =
     (if \<not> has_next r then Inl (ValueError [Txt ''Unexpected EOF while parsing sdist.''])
      else (case peek r of
        Inl e \<Rightarrow> Inl e
      | Inr p \<Rightarrow>
          if p = header then Inr (None, r)
          else (case next_line r of
                  Inl e \<Rightarrow> Inl e
                | Inr (l, r') \<Rightarrow>
                    (case sdist_property l of
                       None \<Rightarrow> parse_sdist r'
                     | Some m \<Rightarrow> Inr (Some m, r')))))\<close>
  by pat_completeness auto
termination
  by (relation \<open>measure remaining\<close>) (auto simp: next_line_remaining)

text \<open>The loop that ends \<^verbatim>\<open>parse_dependency_details\<close>.\<close>

function skip_rest :: \<open>reader \<Rightarrow> error + reader\<close> where
  \<open>skip_rest r =
     (if \<not> has_next r then Inr r
      else (case peek r of
        Inl e \<Rightarrow> Inl e
      | Inr p \<Rightarrow>
          if \<not> p = header then
            (case next_line r of
               Inl e \<Rightarrow> Inl e
             | Inr (l, r') \<Rightarrow> skip_rest r')
          else Inr r))\<close>
  by pat_completeness auto
termination
  by (relation \<open>measure remaining\<close>) (auto simp: next_line_remaining)

definition resource_block :: \<open>string \<Rightarrow> string \<Rightarrow> string \<Rightarrow> string\<close> where
  \<comment> \<open>the f-string of \<^verbatim>\<open>parse_dependency_details\<close>\<close>
  \<open>resource_block name url hash =
     ''  resource "'' @ name @ ''" do\<newline>'' @
     ''    url "'' @ url @ ''"\<newline>'' @
     ''    sha256 "'' @ hash @ ''"\<newline>'' @
     ''  end\<newline>''\<close>

definition print :: \<open>string \<Rightarrow> string \<Rightarrow> string\<close> where
  \<comment> \<open>standard output after \<^verbatim>\<open>print(s)\<close>\<close>
  \<open>print s out = out @ s @ ''\<newline>''\<close>

text \<open>
  A function that prints takes standard output as written so far and returns it with its
  result: what was written stays written when an exception ends the run.
\<close>

definition parse_dependency_details :: \<open>reader \<Rightarrow> string \<Rightarrow> (error + reader) \<times> string\<close> where
  \<open>parse_dependency_details r out =
     (case parse_name r of
        Inl e \<Rightarrow> (Inl e, out)
      | Inr (name, r1) \<Rightarrow>
          (case parse_sdist r1 of
             Inl e \<Rightarrow> (Inl e, out)
           | Inr (None, r2) \<Rightarrow> (Inr r2, out)
           | Inr (Some (url, hash), r2) \<Rightarrow>
               (skip_rest r2, print (resource_block name url hash) out)))\<close>

definition parse_dependency :: \<open>reader \<Rightarrow> string \<Rightarrow> (error + reader) \<times> string\<close> where
  \<open>parse_dependency r out =
     (case next_line r of
        Inl e \<Rightarrow> (Inl e, out)
      | Inr (hd_line, r') \<Rightarrow>
          if \<not> hd_line = header then
            (Inl (ValueError [Txt ''Expected package header at line '', IntVal (line r'),
                              Txt ('', found '' @ [squote]), StrVal hd_line,
                              Txt (squote # ''.'')]), out)
          else parse_dependency_details r' out)\<close>

declare skip_initial_fields.simps [simp del]
declare parse_name.simps [simp del]
declare parse_sdist.simps [simp del]
declare skip_rest.simps [simp del]

lemma parse_name_remaining:
  \<open>parse_name r = Inr (v, r') \<Longrightarrow> remaining r' < remaining r\<close>
proof (induction r arbitrary: v r' rule: parse_name.induct)
  case (1 r)
  from "1.prems" obtain l r1 where nx: \<open>next_line r = Inr (l, r1)\<close> and hn: \<open>has_next r\<close>
    and pr: \<open>property l\<close>
    by (subst (asm) parse_name.simps) (auto split: if_splits sum.splits)
  have lt: \<open>remaining r1 < remaining r\<close>
    using nx by (rule next_line_remaining)
  show ?case
  proof (cases \<open>name_property l\<close>)
    case None
    with "1.prems" nx hn pr have \<open>parse_name r1 = Inr (v, r')\<close>
      by (subst (asm) parse_name.simps) auto
    with "1.IH" nx None hn pr have \<open>remaining r' < remaining r1\<close>
      by auto
    with lt show ?thesis by simp
  next
    case (Some w)
    with "1.prems" nx hn pr have \<open>r' = r1\<close>
      by (subst (asm) parse_name.simps) auto
    with lt show ?thesis by simp
  qed
qed

lemma parse_sdist_remaining:
  \<open>parse_sdist r = Inr (m, r') \<Longrightarrow> remaining r' \<le> remaining r\<close>
proof (induction r arbitrary: m r' rule: parse_sdist.induct)
  case (1 r)
  from "1.prems" obtain p where hn: \<open>has_next r\<close> and pk: \<open>peek r = Inr p\<close>
    by (subst (asm) parse_sdist.simps) (auto split: if_splits sum.splits)
  show ?case
  proof (cases \<open>p = header\<close>)
    case True
    with "1.prems" hn pk show ?thesis
      by (subst (asm) parse_sdist.simps) auto
  next
    case False
    with "1.prems" hn pk obtain l r1 where nx: \<open>next_line r = Inr (l, r1)\<close>
      by (subst (asm) parse_sdist.simps) (auto split: sum.splits)
    have lt: \<open>remaining r1 < remaining r\<close>
      using nx by (rule next_line_remaining)
    show ?thesis
    proof (cases \<open>sdist_property l\<close>)
      case None
      with "1.prems" hn pk False nx have \<open>parse_sdist r1 = Inr (m, r')\<close>
        by (subst (asm) parse_sdist.simps) auto
      with "1.IH" hn pk False nx None have \<open>remaining r' \<le> remaining r1\<close>
        by auto
      with lt show ?thesis by simp
    next
      case (Some w)
      with "1.prems" hn pk False nx have \<open>r' = r1\<close>
        by (subst (asm) parse_sdist.simps) auto
      with lt show ?thesis by simp
    qed
  qed
qed

lemma skip_rest_remaining:
  \<open>skip_rest r = Inr r' \<Longrightarrow> remaining r' \<le> remaining r\<close>
proof (induction r arbitrary: r' rule: skip_rest.induct)
  case (1 r)
  show ?case
  proof (cases \<open>has_next r\<close>)
    case False
    with "1.prems" show ?thesis
      by (subst (asm) skip_rest.simps) auto
  next
    case True
    with "1.prems" obtain p where pk: \<open>peek r = Inr p\<close>
      by (subst (asm) skip_rest.simps) (auto split: sum.splits)
    show ?thesis
    proof (cases \<open>p = header\<close>)
      case True
      with "1.prems" \<open>has_next r\<close> pk show ?thesis
        by (subst (asm) skip_rest.simps) auto
    next
      case False
      with "1.prems" \<open>has_next r\<close> pk obtain l r1 where nx: \<open>next_line r = Inr (l, r1)\<close>
        and rec: \<open>skip_rest r1 = Inr r'\<close>
        by (subst (asm) skip_rest.simps) (auto split: sum.splits)
      have \<open>remaining r1 < remaining r\<close>
        using nx by (rule next_line_remaining)
      moreover from "1.IH" \<open>has_next r\<close> pk False nx rec have \<open>remaining r' \<le> remaining r1\<close>
        by auto
      ultimately show ?thesis by simp
    qed
  qed
qed

lemma parse_dependency_remaining:
  \<open>parse_dependency r out = (Inr r', out') \<Longrightarrow> remaining r' < remaining r\<close>
  unfolding parse_dependency_def parse_dependency_details_def
  by (auto split: sum.splits if_splits option.splits prod.splits
      dest!: next_line_remaining parse_name_remaining parse_sdist_remaining skip_rest_remaining)

text \<open>The loop of \<^verbatim>\<open>read_lockfile\<close>.\<close>

function read_packages :: \<open>reader \<Rightarrow> string \<Rightarrow> (error + reader) \<times> string\<close> where
  \<open>read_packages r out =
     (if has_next r then
        (case parse_dependency r out of
           (Inl e, out') \<Rightarrow> (Inl e, out')
         | (Inr r', out') \<Rightarrow> read_packages r' out')
      else (Inr r, out))\<close>
  by pat_completeness auto
termination
  by (relation \<open>measure (\<lambda>(r, out). remaining r)\<close>) (auto intro: parse_dependency_remaining [OF sym])

declare read_packages.simps [simp del]

definition read_lockfile :: \<open>reader \<Rightarrow> string \<Rightarrow> (error + reader) \<times> string\<close> where
  \<open>read_lockfile r out =
     (case skip_initial_fields r of
        Inl e \<Rightarrow> (Inl e, out)
      | Inr r' \<Rightarrow> read_packages r' out)\<close>

definition main :: \<open>string list \<Rightarrow> (error + reader) \<times> string\<close> where
  \<comment> \<open>the program on the lines of standard input: how it ended, and standard output\<close>
  \<open>main ls = read_lockfile (StdinReader ls) ''''\<close>

definition exit_status :: \<open>error + reader \<Rightarrow> nat\<close> where
  \<comment> \<open>an exception that nothing catches ends the process with status 1\<close>
  \<open>exit_status res = (case res of Inl e \<Rightarrow> 1 | Inr r \<Rightarrow> 0)\<close>

section \<open>The lines ahead of a reader\<close>

text \<open>
  \<open>pending r\<close> lists the lines that the reader \<open>r\<close> will still hand out: the
  buffered one first. \<open>advance k r\<close> is the reader after \<open>k\<close> further reads.
  Both serve to state what the walker does on a given input; the walker does not use them.
\<close>

definition pending :: \<open>reader \<Rightarrow> string list\<close> where
  \<open>pending r = (case buffer r of None \<Rightarrow> [] | Some b \<Rightarrow> b # map rstrip_newlines (stdin r))\<close>

primrec advance :: \<open>nat \<Rightarrow> reader \<Rightarrow> reader\<close> where
  \<open>advance 0 r = r\<close>
| \<open>advance (Suc k) r = advance k (update_buffer r)\<close>

lemma rstrip_newlines_snoc [simp]: \<open>rstrip_newlines (l @ [newline]) = rstrip_newlines l\<close>
  by (simp add: rstrip_newlines_def)

lemma rstrip_newlines_id: \<open>newline \<notin> set l \<Longrightarrow> rstrip_newlines l = l\<close>
proof -
  assume a: \<open>newline \<notin> set l\<close>
  have \<open>dropWhile (\<lambda>c. c = newline) (rev l) = rev l\<close>
    using a by (cases \<open>rev l\<close>) (auto simp: rev_eq_Cons_iff)
  then show ?thesis by (simp add: rstrip_newlines_def)
qed

lemma pending_StdinReader: \<open>pending (StdinReader ls) = map rstrip_newlines ls\<close>
  by (cases ls) (simp_all add: pending_def StdinReader_def update_buffer_def readline_def)

lemma has_next_pending: \<open>has_next r \<longleftrightarrow> pending r \<noteq> []\<close>
  by (simp add: has_next_def pending_def split: option.splits)

lemma pending_Cons:
  assumes \<open>pending r = l # ls\<close>
  shows \<open>has_next r\<close> \<open>peek r = Inr l\<close> \<open>next_line r = Inr (l, update_buffer r)\<close>
    \<open>pending (update_buffer r) = ls\<close>
  using assms
  by (auto simp: has_next_def peek_def next_line_def pending_def update_buffer_def readline_def
      split: option.splits list.splits)

lemma pending_Nil:
  assumes \<open>pending r = []\<close>
  shows \<open>\<not> has_next r\<close>
  using assms by (simp add: has_next_pending)

lemma pending_advance: \<open>pending r = pre @ rest \<Longrightarrow> pending (advance (length pre) r) = rest\<close>
proof (induction pre arbitrary: r)
  case Nil
  then show ?case by simp
next
  case (Cons p pre)
  then have \<open>pending (update_buffer r) = pre @ rest\<close>
    using pending_Cons(4) [of r p \<open>pre @ rest\<close>] by simp
  with Cons.IH show ?case by simp
qed

lemma advance_add: \<open>advance (m + n) r = advance n (advance m r)\<close>
  by (induction m arbitrary: r) simp_all


lemma skip_initial_fields_pending:
  assumes \<open>pending r = pre @ rest\<close>
    and \<open>\<forall>p\<in>set pre. whitespace p \<or> property p\<close>
    and \<open>rest = [] \<or> \<not> (whitespace (hd rest) \<or> property (hd rest))\<close>
  shows \<open>skip_initial_fields r = Inr (advance (length pre) r)\<close>
  using assms
proof (induction pre arbitrary: r)
  case Nil
  show ?case
  proof (cases rest)
    case Nil
    with Nil.prems(1) have \<open>\<not> has_next r\<close> by (simp add: has_next_pending)
    then show ?thesis by (subst skip_initial_fields.simps) simp
  next
    case (Cons b bs)
    with Nil.prems(1) have \<open>pending r = b # bs\<close> by simp
    from pending_Cons(1,2) [OF this] Nil.prems(3) Cons show ?thesis
      by (subst skip_initial_fields.simps) simp
  qed
next
  case (Cons p pre)
  from Cons.prems(1) have pr: \<open>pending r = p # (pre @ rest)\<close> by simp
  have \<open>skip_initial_fields (update_buffer r) = Inr (advance (length pre) (update_buffer r))\<close>
    using Cons.IH [OF pending_Cons(4) [OF pr]] Cons.prems(2,3) by simp
  with pending_Cons(1,2,3) [OF pr] Cons.prems(2) show ?case
    by (subst skip_initial_fields.simps) simp
qed

definition expected_property :: \<open>string \<Rightarrow> error\<close> where
  \<open>expected_property l =
     ValueError [Txt (''Expected property, found '' @ [squote]), StrVal l,
                 Txt (squote # '' at line ''), BoundMethod ''StdinReader.line'', Txt ''.'']\<close>

lemma parse_name_pending:
  assumes \<open>pending r = pre @ rest\<close>
    and \<open>\<forall>p\<in>set pre. property p \<and> name_property p = None\<close>
  shows \<open>parse_name r =
     (case rest of
        [] \<Rightarrow> Inl (ValueError [Txt ''Unexpected while parsing name.''])
      | l # ls \<Rightarrow>
          if \<not> property l then Inl (expected_property l)
          else (case name_property l of
                  None \<Rightarrow> parse_name (advance (Suc (length pre)) r)
                | Some v \<Rightarrow> Inr (replace_hyphens v, advance (Suc (length pre)) r)))\<close>
  using assms
proof (induction pre arbitrary: r)
  case Nil
  show ?case
  proof (cases rest)
    case Nil
    with Nil.prems(1) have \<open>\<not> has_next r\<close> by (simp add: has_next_pending)
    with Nil show ?thesis by (subst parse_name.simps) simp
  next
    case (Cons b bs)
    with Nil.prems(1) have \<open>pending r = b # bs\<close> by simp
    from pending_Cons(1,3) [OF this] Cons show ?thesis
      by (subst parse_name.simps) (simp add: expected_property_def split: option.splits)
  qed
next
  case (Cons p pre)
  from Cons.prems(1) have pr: \<open>pending r = p # (pre @ rest)\<close> by simp
  have \<open>parse_name r = parse_name (update_buffer r)\<close>
    using pending_Cons(1,3) [OF pr] Cons.prems(2) by (subst parse_name.simps) simp
  moreover note Cons.IH [OF pending_Cons(4) [OF pr]] Cons.prems(2)
  ultimately show ?case by (simp split: list.splits option.splits)
qed

definition sdist_eof :: error where
  \<open>sdist_eof = ValueError [Txt ''Unexpected EOF while parsing sdist.'']\<close>

lemma parse_sdist_pending:
  assumes \<open>pending r = pre @ rest\<close>
    and \<open>\<forall>p\<in>set pre. p \<noteq> header \<and> sdist_property p = None\<close>
  shows \<open>parse_sdist r =
     (case rest of
        [] \<Rightarrow> Inl sdist_eof
      | l # ls \<Rightarrow>
          if l = header then Inr (None, advance (length pre) r)
          else (case sdist_property l of
                  None \<Rightarrow> parse_sdist (advance (Suc (length pre)) r)
                | Some d \<Rightarrow> Inr (Some d, advance (Suc (length pre)) r)))\<close>
  using assms
proof (induction pre arbitrary: r)
  case Nil
  show ?case
  proof (cases rest)
    case Nil
    with Nil.prems(1) have \<open>\<not> has_next r\<close> by (simp add: has_next_pending)
    with Nil show ?thesis by (subst parse_sdist.simps) (simp add: sdist_eof_def)
  next
    case (Cons b bs)
    with Nil.prems(1) have \<open>pending r = b # bs\<close> by simp
    from pending_Cons(1,2,3) [OF this] Cons show ?thesis
      by (subst parse_sdist.simps) (simp split: option.splits)
  qed
next
  case (Cons p pre)
  from Cons.prems(1) have pr: \<open>pending r = p # (pre @ rest)\<close> by simp
  have \<open>parse_sdist r = parse_sdist (update_buffer r)\<close>
    using pending_Cons(1,2,3) [OF pr] Cons.prems(2) by (subst parse_sdist.simps) simp
  moreover note Cons.IH [OF pending_Cons(4) [OF pr]] Cons.prems(2)
  ultimately show ?case by (simp split: list.splits option.splits)
qed

lemma skip_rest_pending:
  assumes \<open>pending r = pre @ rest\<close>
    and \<open>\<forall>p\<in>set pre. p \<noteq> header\<close>
    and \<open>rest = [] \<or> hd rest = header\<close>
  shows \<open>skip_rest r = Inr (advance (length pre) r)\<close>
  using assms
proof (induction pre arbitrary: r)
  case Nil
  show ?case
  proof (cases rest)
    case Nil
    with Nil.prems(1) have \<open>\<not> has_next r\<close> by (simp add: has_next_pending)
    then show ?thesis by (subst skip_rest.simps) simp
  next
    case (Cons b bs)
    with Nil.prems(1) have \<open>pending r = b # bs\<close> by simp
    from pending_Cons(1,2) [OF this] Nil.prems(3) Cons show ?thesis
      by (subst skip_rest.simps) simp
  qed
next
  case (Cons p pre)
  from Cons.prems(1) have pr: \<open>pending r = p # (pre @ rest)\<close> by simp
  have \<open>skip_rest (update_buffer r) = Inr (advance (length pre) (update_buffer r))\<close>
    using Cons.IH [OF pending_Cons(4) [OF pr]] Cons.prems(2,3) by simp
  with pending_Cons(1,2,3) [OF pr] Cons.prems(2) show ?case
    by (subst skip_rest.simps) simp
qed

section \<open>Facts about the patterns\<close>

text \<open>An \<^verbatim>\<open>sdist\<close> line up to the closing quote of its hash, followed by \<open>t\<close>.\<close>

definition sdist_text :: \<open>string \<Rightarrow> string \<Rightarrow> string \<Rightarrow> string\<close> where
  \<open>sdist_text u h t = ''sdist = { url = "'' @ u @ ''", hash = "sha256:'' @ h @ ''"'' @ t\<close>

lemma literal_append [simp]: \<open>literal p (p @ s) = Some s\<close>
  by (simp add: literal_def)

lemma literal_Some_iff: \<open>literal p s = Some t \<longleftrightarrow> s = p @ t\<close>
  by (auto simp: literal_def) (metis append_take_drop_id)

lemma dropWhile_until: \<open>c \<notin> set xs \<Longrightarrow> dropWhile (\<lambda>x. x \<noteq> c) (xs @ c # ys) = c # ys\<close>
  by (induction xs) auto

lemma takeWhile_until: \<open>c \<notin> set xs \<Longrightarrow> takeWhile (\<lambda>x. x \<noteq> c) (xs @ c # ys) = xs\<close>
  by (induction xs) auto

lemma sdist_property_sdist_text:
  assumes \<open>dquote \<notin> set u\<close> and \<open>dquote \<notin> set h\<close>
  shows \<open>sdist_property (sdist_text u h t) =
     (case literal '', '' t of
        None \<Rightarrow> None
      | Some r3 \<Rightarrow>
          if CHR ''}'' \<in> set (takeWhile (\<lambda>c. c \<noteq> newline) r3) then Some (u, h) else None)\<close>
proof -
  let ?p1 = \<open>''sdist = { url = "''\<close>
  let ?p2 = \<open>'', hash = "sha256:''\<close>
  have s: \<open>sdist_text u h t = ?p1 @ (u @ dquote # (?p2 @ (h @ dquote # t)))\<close>
    by (simp add: sdist_text_def dquote_def)
  have l1: \<open>literal ?p1 (sdist_text u h t) = Some (u @ dquote # (?p2 @ (h @ dquote # t)))\<close>
    unfolding s by (rule literal_append)
  have d1: \<open>dropWhile (\<lambda>c. c \<noteq> dquote) (u @ dquote # (?p2 @ (h @ dquote # t)))
      = (dquote # ?p2) @ (h @ dquote # t)\<close>
    using assms(1) by (simp add: dropWhile_until)
  have p2: \<open>''", hash = "sha256:'' = dquote # ?p2\<close>
    by (simp add: dquote_def)
  have l2: \<open>literal ''", hash = "sha256:'' (dropWhile (\<lambda>c. c \<noteq> dquote) (u @ dquote # (?p2 @ (h @ dquote # t))))
      = Some (h @ dquote # t)\<close>
    unfolding d1 p2 by (rule literal_append)
  have d2: \<open>dropWhile (\<lambda>c. c \<noteq> dquote) (h @ dquote # t) = dquote # t\<close>
    using assms(2) by (simp add: dropWhile_until)
  have l3: \<open>literal ''", '' (dquote # t) = literal '', '' t\<close>
    by (simp add: literal_def dquote_def)
  have t1: \<open>takeWhile (\<lambda>c. c \<noteq> dquote) (u @ dquote # (?p2 @ (h @ dquote # t))) = u\<close>
    using assms(1) by (simp add: takeWhile_until)
  have t2: \<open>takeWhile (\<lambda>c. c \<noteq> dquote) (h @ dquote # t) = h\<close>
    using assms(2) by (simp add: takeWhile_until)
  show ?thesis
    unfolding sdist_property_def l1 option.case l2 d2 l3 t1 t2 ..
qed

lemma sdist_text_not_header: \<open>sdist_text u h t \<noteq> header\<close>
  by (simp add: sdist_text_def header_def)

section \<open>Properties of the walker\<close>

text \<open>
  C10: an \<^verbatim>\<open>sdist\<close> line whose inline table ends right after the hash field, so
  that the closing quote of the hash is not followed by a comma and a space, does not match
  the sdist pattern; \<^verbatim>\<open>parse_sdist\<close> consumes the line and scans on from the next
  one, capturing nothing from it. Here \<open>u\<close> and \<open>h\<close> are the quoted url and hash.
\<close>

theorem sdist_without_trailing_field_ignored:
  assumes \<open>dquote \<notin> set u\<close> and \<open>dquote \<notin> set h\<close>
    and \<open>literal '', '' t = None\<close>
    and \<open>pending r = sdist_text u h t # rest\<close>
  shows \<open>sdist_property (sdist_text u h t) = None
    \<and> parse_sdist r = parse_sdist (update_buffer r)
    \<and> pending (update_buffer r) = rest\<close>
proof -
  have n: \<open>sdist_property (sdist_text u h t) = None\<close>
    using assms(1,2,3) by (simp add: sdist_property_sdist_text)
  have \<open>parse_sdist r = parse_sdist (update_buffer r)\<close>
    using pending_Cons(1,2,3) [OF assms(4)] n sdist_text_not_header [of u h t]
    by (subst parse_sdist.simps) simp
  with n pending_Cons(4) [OF assms(4)] show ?thesis by simp
qed

theorem sdist_without_trailing_field_ignored_witness:
  \<open>sdist_property ''sdist = { url = "u", hash = "sha256:h" }'' = None
    \<and> parse_sdist (StdinReader [''sdist = { url = "u", hash = "sha256:h" }'', ''[[package]]''])
        = Inr (None, update_buffer (StdinReader [''sdist = { url = "u", hash = "sha256:h" }'', ''[[package]]'']))
    \<and> pending (update_buffer (StdinReader [''sdist = { url = "u", hash = "sha256:h" }'', ''[[package]]''])) = [''[[package]]'']\<close>
proof -
  let ?r = \<open>StdinReader [''sdist = { url = "u", hash = "sha256:h" }'', ''[[package]]'']\<close>
  have t: \<open>sdist_text ''u'' ''h'' '' }'' = ''sdist = { url = "u", hash = "sha256:h" }''\<close>
    by (simp add: sdist_text_def)
  have p: \<open>pending ?r = [''sdist = { url = "u", hash = "sha256:h" }'', ''[[package]]'']\<close>
    by (simp add: pending_StdinReader rstrip_newlines_def newline_def)
  have h1: \<open>dquote \<notin> set ''u''\<close> and h2: \<open>dquote \<notin> set ''h''\<close>
    and h3: \<open>literal '', '' '' }'' = None\<close>
    by (simp_all add: dquote_def literal_def)
  have e: \<open>parse_sdist (update_buffer ?r) = Inr (None, update_buffer ?r)\<close>
    by (subst parse_sdist.simps)
      (simp add: StdinReader_def update_buffer_def readline_def has_next_def peek_def
        header_def rstrip_newlines_def newline_def)
  from sdist_without_trailing_field_ignored [of \<open>''u''\<close> \<open>''h''\<close> \<open>'' }''\<close> ?r \<open>[''[[package]]'']\<close>, OF h1 h2 h3]
    t p e show ?thesis by simp
qed

text \<open>Unfolding rules that evaluate the program on a given input.\<close>

lemmas reader_eval =
  StdinReader_def update_buffer_def readline_def has_next_def peek_def next_line_def line_def
  rstrip_newlines_def newline_def

lemmas pattern_eval =
  property_def whitespace_def name_property_def sdist_property_def literal_def
  is_lower_def is_key_char_def is_space_def dquote_def squote_def header_def replace_hyphens_def

lemmas walker_eval =
  main_def read_lockfile_def read_packages.simps parse_dependency_def
  parse_dependency_details_def skip_initial_fields.simps parse_name.simps parse_sdist.simps
  skip_rest.simps print_def resource_block_def exit_status_def


subsection \<open>The line counter\<close>

text \<open>
  A sequence of calls on a reader, with the number of \<^verbatim>\<open>next\<close> calls that have
  returned so far; a call that raises leaves the reader as it was.
\<close>

datatype reader_op = OpNext | OpPeek | OpHasNext

fun apply_op :: \<open>reader_op \<Rightarrow> reader \<times> nat \<Rightarrow> reader \<times> nat\<close> where
  \<open>apply_op OpNext (r, k) = (case next_line r of Inl e \<Rightarrow> (r, k) | Inr (l, r') \<Rightarrow> (r', Suc k))\<close>
| \<open>apply_op OpPeek (r, k) = (case peek r of Inl e \<Rightarrow> (r, k) | Inr l \<Rightarrow> (r, k))\<close>
| \<open>apply_op OpHasNext (r, k) = (if has_next r then (r, k) else (r, k))\<close>

definition run_ops :: \<open>reader_op list \<Rightarrow> string list \<Rightarrow> reader \<times> nat\<close> where
  \<open>run_ops ops ls = foldl (\<lambda>s opn. apply_op opn s) (StdinReader ls, 0) ops\<close>

definition counted :: \<open>nat \<Rightarrow> reader \<times> nat \<Rightarrow> bool\<close> where
  \<open>counted n s = (case s of (r, k) \<Rightarrow>
     (case buffer r of
        None \<Rightarrow> current_line r = n \<and> k = n \<and> stdin r = []
      | Some b \<Rightarrow> current_line r = Suc k \<and> length (stdin r) + Suc k = n))\<close>

lemma counted_StdinReader: \<open>counted (length ls) (StdinReader ls, 0)\<close>
  by (cases ls) (simp_all add: counted_def StdinReader_def update_buffer_def readline_def)

lemma counted_apply_op: \<open>counted n s \<Longrightarrow> counted n (apply_op opn s)\<close>
proof (cases s)
  case (Pair r k)
  assume c: \<open>counted n s\<close>
  show ?thesis
  proof (cases opn)
    case OpNext
    with c Pair show ?thesis
      by (auto simp: counted_def next_line_def has_next_def update_buffer_def readline_def
          split: option.splits list.splits)
  next
    case OpPeek
    with c Pair show ?thesis by (simp split: sum.splits)
  next
    case OpHasNext
    with c Pair show ?thesis by simp
  qed
qed

lemma counted_foldl: \<open>counted n s \<Longrightarrow> counted n (foldl (\<lambda>s opn. apply_op opn s) s ops)\<close>
  by (induction ops arbitrary: s) (simp_all add: counted_apply_op)

lemma counted_line: \<open>counted n (r, k) \<Longrightarrow> line r = min (Suc k) n\<close>
  by (auto simp: counted_def line_def split: option.splits)

lemma apply_op_no_read:
  \<open>opn \<noteq> OpNext \<Longrightarrow> apply_op opn s = s\<close>
  by (cases s; cases opn) (simp_all split: sum.splits)

text \<open>
  C4: after any sequence of calls on a reader over \<open>ls\<close>, \<^verbatim>\<open>line()\<close> is the
  number of lines read from standard input so far, the buffered one included: one more than
  the number of completed \<^verbatim>\<open>next\<close> calls while a line is buffered, and the length
  of the input once it is exhausted. \<^verbatim>\<open>peek\<close> and \<^verbatim>\<open>has_next\<close> change nothing.
\<close>

theorem line_counts_lines_read:
  \<open>line (fst (run_ops ops ls)) = min (Suc (snd (run_ops ops ls))) (length ls)
    \<and> run_ops (ops @ [OpPeek]) ls = run_ops ops ls
    \<and> run_ops (ops @ [OpHasNext]) ls = run_ops ops ls\<close>
proof -
  have \<open>counted (length ls) (run_ops ops ls)\<close>
    unfolding run_ops_def by (rule counted_foldl) (rule counted_StdinReader)
  then have \<open>line (fst (run_ops ops ls)) = min (Suc (snd (run_ops ops ls))) (length ls)\<close>
    using counted_line [of \<open>length ls\<close> \<open>fst (run_ops ops ls)\<close> \<open>snd (run_ops ops ls)\<close>] by simp
  then show ?thesis
    by (simp add: run_ops_def apply_op_no_read)
qed


theorem line_counts_lines_read_witness:
  \<open>line (fst (run_ops [OpNext, OpPeek, OpNext, OpNext, OpNext] [''a = b'', ''c = d'']))
     = min (Suc 2) 2
   \<and> snd (run_ops [OpNext, OpPeek, OpNext, OpNext, OpNext] [''a = b'', ''c = d'']) = 2\<close>
proof -
  have \<open>snd (run_ops [OpNext, OpPeek, OpNext, OpNext, OpNext] [''a = b'', ''c = d'']) = 2\<close>
    by (simp add: run_ops_def reader_eval)
  with line_counts_lines_read [of \<open>[OpNext, OpPeek, OpNext, OpNext, OpNext]\<close> \<open>[''a = b'', ''c = d'']\<close>]
  show ?thesis by simp
qed

text \<open>
  Before any \<^verbatim>\<open>next\<close> call the count is already 1 on a non-empty input, so it is not
  the number of lines consumed.
\<close>

theorem line_is_not_consumed_count:
  \<open>snd (run_ops [OpPeek, OpHasNext] [''a = b'', ''c = d'']) = 0
    \<and> line (fst (run_ops [OpPeek, OpHasNext] [''a = b'', ''c = d''])) = 1\<close>
  by (simp add: run_ops_def StdinReader_def update_buffer_def readline_def peek_def has_next_def
      line_def)


subsection \<open>Error messages\<close>

text \<open>
  C3: what the two malformed-manifest errors report. The header error on
  \<^verbatim>\<open>foo\<close>, the first line of two, gives position 2: \<^verbatim>\<open>line()\<close> is read after
  \<^verbatim>\<open>next\<close> has buffered the following line. The property error interpolates the
  method \<^verbatim>\<open>reader.line\<close> without calling it and so carries no position.
\<close>

theorem error_position_misreported:
  \<open>main [''foo'', ''bar''] =
     (Inl (ValueError [Txt ''Expected package header at line '', IntVal 2,
                       Txt ('', found '' @ [squote]), StrVal ''foo'', Txt (squote # ''.'')]), '''')
   \<and> main [''[[package]]'', ''name: x''] =
     (Inl (ValueError [Txt (''Expected property, found '' @ [squote]), StrVal ''name: x'',
                       Txt (squote # '' at line ''), BoundMethod ''StdinReader.line'',
                       Txt ''.'']), '''')\<close>
  by (simp add: walker_eval reader_eval pattern_eval)

lemma not_property_header: \<open>\<not> property header\<close>
  by (simp add: property_def header_def is_lower_def)

lemma next_line_pending:
  \<open>next_line r = Inr (l, r') \<Longrightarrow> pending r = l # pending r'\<close>
  by (auto simp: next_line_def has_next_def pending_def update_buffer_def readline_def
      split: if_splits option.splits list.splits)

lemma peek_pending:
  \<open>peek r = Inr l \<Longrightarrow> \<exists>ls. pending r = l # ls\<close>
  by (auto simp: peek_def has_next_def pending_def split: if_splits option.splits)

lemma parse_name_consumes:
  \<open>parse_name r = Inr (v, r') \<Longrightarrow> \<exists>pre. pending r = pre @ pending r' \<and> header \<notin> set pre\<close>
proof (induction r arbitrary: v r' rule: parse_name.induct)
  case (1 r)
  from "1.prems" obtain l r1 where nx: \<open>next_line r = Inr (l, r1)\<close> and hn: \<open>has_next r\<close>
    and pr: \<open>property l\<close>
    by (subst (asm) parse_name.simps) (auto split: if_splits sum.splits)
  have p: \<open>pending r = l # pending r1\<close>
    using nx by (rule next_line_pending)
  have lh: \<open>l \<noteq> header\<close>
    using pr not_property_header by auto
  show ?case
  proof (cases \<open>name_property l\<close>)
    case None
    with "1.prems" nx hn pr have \<open>parse_name r1 = Inr (v, r')\<close>
      by (subst (asm) parse_name.simps) auto
    with "1.IH" nx None hn pr obtain pre where
      \<open>pending r1 = pre @ pending r'\<close> \<open>header \<notin> set pre\<close>
      by blast
    with p lh have \<open>pending r = (l # pre) @ pending r' \<and> header \<notin> set (l # pre)\<close>
      by simp
    then show ?thesis by blast
  next
    case (Some w)
    with "1.prems" nx hn pr have \<open>r' = r1\<close>
      by (subst (asm) parse_name.simps) auto
    with p lh have \<open>pending r = [l] @ pending r' \<and> header \<notin> set [l]\<close>
      by simp
    then show ?thesis by blast
  qed
qed

lemma parse_sdist_consumes:
  \<open>parse_sdist r = Inr (m, r') \<Longrightarrow>
     (\<exists>pre. pending r = pre @ pending r' \<and> header \<notin> set pre)
     \<and> (m = None \<longrightarrow> peek r' = Inr header)\<close>
proof (induction r arbitrary: m r' rule: parse_sdist.induct)
  case (1 r)
  from "1.prems" obtain p where hn: \<open>has_next r\<close> and pk: \<open>peek r = Inr p\<close>
    by (subst (asm) parse_sdist.simps) (auto split: if_splits sum.splits)
  show ?case
  proof (cases \<open>p = header\<close>)
    case True
    with "1.prems" hn pk have \<open>m = None\<close> \<open>r' = r\<close>
      by (subst (asm) parse_sdist.simps, auto)+
    with pk True have \<open>pending r = [] @ pending r' \<and> header \<notin> set []\<close> \<open>peek r' = Inr header\<close>
      by simp_all
    then show ?thesis by blast
  next
    case False
    with "1.prems" hn pk obtain l r1 where nx: \<open>next_line r = Inr (l, r1)\<close>
      by (subst (asm) parse_sdist.simps) (auto split: sum.splits)
    have pp: \<open>pending r = l # pending r1\<close>
      using nx by (rule next_line_pending)
    with peek_pending [OF pk] have \<open>l = p\<close> by auto
    with False have lh: \<open>l \<noteq> header\<close> by simp
    show ?thesis
    proof (cases \<open>sdist_property l\<close>)
      case None
      with "1.prems" hn pk False nx have \<open>parse_sdist r1 = Inr (m, r')\<close>
        by (subst (asm) parse_sdist.simps) auto
      with "1.IH" hn pk False nx None obtain pre where
        \<open>pending r1 = pre @ pending r'\<close> \<open>header \<notin> set pre\<close> \<open>m = None \<longrightarrow> peek r' = Inr header\<close>
        by blast
      with pp lh have \<open>pending r = (l # pre) @ pending r' \<and> header \<notin> set (l # pre)\<close>
        \<open>m = None \<longrightarrow> peek r' = Inr header\<close>
        by simp_all
      then show ?thesis by blast
    next
      case (Some w)
      with "1.prems" hn pk False nx have \<open>r' = r1\<close> \<open>m = Some w\<close>
        by (subst (asm) parse_sdist.simps, auto)+
      with pp lh have \<open>pending r = [l] @ pending r' \<and> header \<notin> set [l]\<close> \<open>m \<noteq> None\<close>
        by simp_all
      then show ?thesis by blast
    qed
  qed
qed

lemma skip_rest_consumes:
  \<open>skip_rest r = Inr r' \<Longrightarrow>
     (\<exists>pre. pending r = pre @ pending r' \<and> header \<notin> set pre)
     \<and> (\<not> has_next r' \<or> peek r' = Inr header)\<close>
proof (induction r arbitrary: r' rule: skip_rest.induct)
  case (1 r)
  show ?case
  proof (cases \<open>has_next r\<close>)
    case False
    with "1.prems" have \<open>r' = r\<close>
      by (subst (asm) skip_rest.simps) auto
    with False have \<open>pending r = [] @ pending r' \<and> header \<notin> set []\<close> \<open>\<not> has_next r'\<close>
      by simp_all
    then show ?thesis by blast
  next
    case True
    with "1.prems" obtain p where pk: \<open>peek r = Inr p\<close>
      by (subst (asm) skip_rest.simps) (auto split: sum.splits)
    show ?thesis
    proof (cases \<open>p = header\<close>)
      case True
      with "1.prems" \<open>has_next r\<close> pk have \<open>r' = r\<close>
        by (subst (asm) skip_rest.simps) auto
      with pk True have \<open>pending r = [] @ pending r' \<and> header \<notin> set []\<close> \<open>peek r' = Inr header\<close>
        by simp_all
      then show ?thesis by blast
    next
      case False
      with "1.prems" \<open>has_next r\<close> pk obtain l r1 where nx: \<open>next_line r = Inr (l, r1)\<close>
        and rec: \<open>skip_rest r1 = Inr r'\<close>
        by (subst (asm) skip_rest.simps) (auto split: sum.splits)
      have pp: \<open>pending r = l # pending r1\<close>
        using nx by (rule next_line_pending)
      with peek_pending [OF pk] have \<open>l = p\<close> by auto
      with False have lh: \<open>l \<noteq> header\<close> by simp
      from "1.IH" \<open>has_next r\<close> pk False nx rec obtain pre where
        \<open>pending r1 = pre @ pending r'\<close> \<open>header \<notin> set pre\<close> \<open>\<not> has_next r' \<or> peek r' = Inr header\<close>
        by blast
      with pp lh have \<open>pending r = (l # pre) @ pending r' \<and> header \<notin> set (l # pre)\<close>
        \<open>\<not> has_next r' \<or> peek r' = Inr header\<close>
        by simp_all
      then show ?thesis by blast
    qed
  qed
qed

lemma dropWhile_consumed:
  assumes \<open>xs = pre @ ys\<close> and \<open>h \<notin> set pre\<close> and \<open>ys = [] \<or> hd ys = h\<close>
  shows \<open>dropWhile (\<lambda>l. l \<noteq> h) xs = ys\<close>
proof -
  have \<open>dropWhile (\<lambda>l. l \<noteq> h) xs = dropWhile (\<lambda>l. l \<noteq> h) ys\<close>
    unfolding assms(1) using assms(2) by (induction pre) auto
  also have \<open>\<dots> = ys\<close>
    using assms(3) by (cases ys) auto
  finally show ?thesis .
qed

lemma skip_rest_returns: \<open>\<exists>r'. skip_rest r = Inr r'\<close>
proof (induction r rule: skip_rest.induct)
  case (1 r)
  show ?case
  proof (cases \<open>has_next r\<close>)
    case False
    then have \<open>skip_rest r = Inr r\<close>
      by (subst skip_rest.simps) simp
    then show ?thesis by blast
  next
    case True
    then obtain p where b: \<open>buffer r = Some p\<close>
      by (auto simp: has_next_def)
    with True have pk: \<open>peek r = Inr p\<close> and nx: \<open>next_line r = Inr (p, update_buffer r)\<close>
      by (simp_all add: peek_def next_line_def)
    show ?thesis
    proof (cases \<open>p = header\<close>)
      case True
      with \<open>has_next r\<close> pk have \<open>skip_rest r = Inr r\<close>
        by (subst skip_rest.simps) simp
      then show ?thesis by blast
    next
      case False
      with \<open>has_next r\<close> pk nx have \<open>skip_rest r = skip_rest (update_buffer r)\<close>
        by (subst skip_rest.simps) simp
      moreover from "1.IH" \<open>has_next r\<close> pk False nx
      have \<open>\<exists>r'. skip_rest (update_buffer r) = Inr r'\<close>
        by simp
      ultimately show ?thesis by simp
    qed
  qed
qed

subsection \<open>The end of a record\<close>

text \<open>
  C7: once the name and the sdist scan of a record have returned, with a descriptor
  \<open>m = Some (url, hash)\<close> or without one, \<^verbatim>\<open>parse_dependency_details\<close> returns
  normally: the skip of the remaining lines raises nothing. It has written the block exactly
  when there was a descriptor, and it leaves the reader at the next
  \<^verbatim>\<open>[[package]]\<close> header or at the end of input: what is left of the input is what
  followed the first header line, that line included, so every line of the record before it
  has been consumed.
\<close>

theorem record_tail_skipped:
  assumes \<open>parse_name r = Inr (name, r1)\<close>
    and \<open>parse_sdist r1 = Inr (m, r2)\<close>
  shows \<open>\<exists>r'. parse_dependency_details r out
        = (Inr r', case m of None \<Rightarrow> out
                   | Some (url, hash) \<Rightarrow> print (resource_block name url hash) out)
      \<and> (\<not> has_next r' \<or> peek r' = Inr header)
      \<and> pending r' = dropWhile (\<lambda>l. l \<noteq> header) (pending r)\<close>
proof -
  from parse_name_consumes [OF assms(1)] obtain pre1 where
    c1: \<open>pending r = pre1 @ pending r1\<close> \<open>header \<notin> set pre1\<close> by blast
  from parse_sdist_consumes [OF assms(2)] obtain pre2 where
    c2: \<open>pending r1 = pre2 @ pending r2\<close> \<open>header \<notin> set pre2\<close>
    and pk: \<open>m = None \<longrightarrow> peek r2 = Inr header\<close> by blast
  have \<open>\<exists>r'. parse_dependency_details r out
        = (Inr r', case m of None \<Rightarrow> out
                   | Some (url, hash) \<Rightarrow> print (resource_block name url hash) out)
      \<and> (\<exists>pre3. pending r2 = pre3 @ pending r' \<and> header \<notin> set pre3)
      \<and> (\<not> has_next r' \<or> peek r' = Inr header)\<close>
  proof (cases m)
    case None
    with assms have \<open>parse_dependency_details r out = (Inr r2, out)\<close>
      by (simp add: parse_dependency_details_def)
    moreover from pk None have \<open>pending r2 = [] @ pending r2 \<and> header \<notin> set []\<close>
      \<open>peek r2 = Inr header\<close>
      by simp_all
    ultimately show ?thesis using None by auto
  next
    case (Some d)
    obtain url hash where d: \<open>d = (url, hash)\<close> by (cases d)
    obtain r' where sr: \<open>skip_rest r2 = Inr r'\<close>
      using skip_rest_returns [of r2] by blast
    with assms Some d have \<open>parse_dependency_details r out
        = (Inr r', print (resource_block name url hash) out)\<close>
      by (simp add: parse_dependency_details_def)
    with skip_rest_consumes [OF sr] Some d show ?thesis by auto
  qed
  then obtain r' pre3 where
    res: \<open>parse_dependency_details r out
        = (Inr r', case m of None \<Rightarrow> out
                   | Some (url, hash) \<Rightarrow> print (resource_block name url hash) out)\<close>
    and c3: \<open>pending r2 = pre3 @ pending r'\<close> \<open>header \<notin> set pre3\<close>
    and stop: \<open>\<not> has_next r' \<or> peek r' = Inr header\<close> by blast
  have whole: \<open>pending r = (pre1 @ pre2 @ pre3) @ pending r'\<close>
    using c1 c2 c3 by simp
  have none: \<open>header \<notin> set (pre1 @ pre2 @ pre3)\<close>
    using c1 c2 c3 by simp
  have edge: \<open>pending r' = [] \<or> hd (pending r') = header\<close>
    using stop peek_pending [of r' header] by (auto simp: has_next_pending)
  from dropWhile_consumed [OF whole none edge] have \<open>pending r' = dropWhile (\<lambda>l. l \<noteq> header) (pending r)\<close>
    by simp
  with res stop show ?thesis by (intro exI [of _ r']) simp
qed

theorem record_tail_skipped_witness:
  \<open>parse_dependency_details
      (StdinReader [''name = "a-b"'', ''sdist = { url = "u", hash = "sha256:h", size = 1 }'',
                    ''x = y'', ''}'', ''[[package]]'', ''name = "z"'']) ''''
     = (Inr \<lparr>stdin = [''name = "z"''], buffer = Some ''[[package]]'', current_line = 5\<rparr>,
        print (resource_block ''a_b'' ''u'' ''h'') '''')
   \<and> peek \<lparr>stdin = [''name = "z"''], buffer = Some ''[[package]]'', current_line = 5\<rparr>
       = Inr header
   \<and> pending \<lparr>stdin = [''name = "z"''], buffer = Some ''[[package]]'', current_line = 5\<rparr>
       = [''[[package]]'', ''name = "z"'']\<close>
proof -
  let ?r = \<open>StdinReader [''name = "a-b"'', ''sdist = { url = "u", hash = "sha256:h", size = 1 }'',
                    ''x = y'', ''}'', ''[[package]]'', ''name = "z"'']\<close>
  let ?r1 = \<open>update_buffer ?r\<close>
  let ?r2 = \<open>update_buffer ?r1\<close>
  let ?r' = \<open>\<lparr>stdin = [''name = "z"''], buffer = Some ''[[package]]'', current_line = 5\<rparr>\<close>
  have a1: \<open>parse_name ?r = Inr (''a_b'', ?r1)\<close>
    by (subst parse_name.simps) (simp add: reader_eval pattern_eval)
  have a2: \<open>parse_sdist ?r1 = Inr (Some (''u'', ''h''), ?r2)\<close>
    by (subst parse_sdist.simps) (simp add: reader_eval pattern_eval)
  have p: \<open>pending ?r = [''name = "a-b"'', ''sdist = { url = "u", hash = "sha256:h", size = 1 }'',
                    ''x = y'', ''}'', ''[[package]]'', ''name = "z"'']\<close>
    by (simp add: pending_StdinReader rstrip_newlines_def newline_def)
  from record_tail_skipped [OF a1 a2, of \<open>''''\<close>] obtain r' where
    res: \<open>parse_dependency_details ?r '''' = (Inr r', print (resource_block ''a_b'' ''u'' ''h'') '''')\<close>
    and stop: \<open>\<not> has_next r' \<or> peek r' = Inr header\<close>
    and left: \<open>pending r' = dropWhile (\<lambda>l. l \<noteq> header) (pending ?r)\<close>
    by auto
  have e: \<open>parse_dependency_details ?r '''' = (Inr ?r', print (resource_block ''a_b'' ''u'' ''h'') '''')\<close>
    by (simp add: walker_eval reader_eval pattern_eval)
  with res have \<open>r' = ?r'\<close> by simp
  with res stop left p show ?thesis
    by (simp add: header_def has_next_def peek_def)
qed

lemmas pending_eval = pending_StdinReader rstrip_newlines_def newline_def header_def

lemma whitespace_not_property: \<open>whitespace b \<Longrightarrow> \<not> property b\<close>
  by (cases b) (auto simp: whitespace_def property_def is_space_def is_lower_def Let_def)

lemma name_property_is_property:
  assumes \<open>name_property l = Some v\<close>
  shows \<open>property l\<close>
proof -
  define body where \<open>body = (if l \<noteq> [] \<and> last l = newline then butlast l else l)\<close>
  from assms obtain rest where \<open>literal ''name = "'' body = Some rest\<close>
    by (auto simp: name_property_def body_def Let_def split: option.splits if_splits)
  then have b: \<open>body = ''name = "'' @ rest\<close>
    by (simp add: literal_Some_iff)
  have \<open>\<exists>t. l = ''name = "'' @ t\<close>
  proof (cases \<open>l \<noteq> [] \<and> last l = newline\<close>)
    case True
    then have \<open>l = butlast l @ [newline]\<close>
      by (metis append_butlast_last_id)
    with True b have \<open>l = ''name = "'' @ (rest @ [newline])\<close>
      by (simp add: body_def)
    then show ?thesis by blast
  next
    case False
    with b show ?thesis by (auto simp: body_def)
  qed
  then obtain t where \<open>l = ''name = "'' @ t\<close> by blast
  then show ?thesis
    by (simp add: property_def is_lower_def is_key_char_def literal_def)
qed

lemma sdist_property_shape:
  assumes \<open>sdist_property l = Some d\<close>
  shows \<open>property l\<close> and \<open>name_property l = None\<close> and \<open>l \<noteq> header\<close>
proof -
  from assms obtain r1 where \<open>literal ''sdist = { url = "'' l = Some r1\<close>
    by (auto simp: sdist_property_def split: option.splits)
  then have l: \<open>l = ''sdist = { url = "'' @ r1\<close>
    by (simp add: literal_Some_iff)
  show \<open>property l\<close>
    unfolding l by (simp add: property_def is_lower_def is_key_char_def literal_def)
  show \<open>l \<noteq> header\<close>
    unfolding l by (simp add: header_def)
  show \<open>name_property l = None\<close>
  proof (cases \<open>last l = newline\<close>)
    case True
    then have \<open>r1 \<noteq> []\<close>
      unfolding l by (auto simp: newline_def)
    then have \<open>butlast l = ''sdist = { url = "'' @ butlast r1\<close>
      unfolding l by (simp add: butlast_append)
    with True show ?thesis
      by (simp add: name_property_def l literal_def)
  next
    case False
    then show ?thesis
      by (simp add: name_property_def l literal_def)
  qed
qed

lemma parse_dependency_at_header:
  assumes \<open>pending r = header # rest\<close>
  shows \<open>parse_dependency r out = parse_dependency_details (update_buffer r) out\<close>
  using pending_Cons(3) [OF assms] by (simp add: parse_dependency_def)

lemma read_packages_step:
  assumes \<open>pending r = l # rest\<close>
  shows \<open>read_packages r out =
     (case parse_dependency r out of
        (Inl e, out') \<Rightarrow> (Inl e, out')
      | (Inr r', out') \<Rightarrow> read_packages r' out')\<close>
  using pending_Cons(1) [OF assms] by (subst read_packages.simps) simp

lemma read_packages_done:
  assumes \<open>pending r = []\<close>
  shows \<open>read_packages r out = (Inr r, out)\<close>
  using pending_Nil [OF assms] by (subst read_packages.simps) simp

subsection \<open>Failures inside a record\<close>

text \<open>
  C9: in a record whose lines after the header are properties other than the name, followed
  by a blank or whitespace-only line \<open>b\<close>, that line does not match the property pattern:
  \<^verbatim>\<open>parse_name\<close> raises the expected-property error on it, and the run ends there with
  a non-zero status and nothing more written.
\<close>

theorem blank_before_name_fatal:
  assumes \<open>pending r = header # pre @ b # rest\<close>
    and \<open>\<forall>p\<in>set pre. property p \<and> name_property p = None\<close>
    and \<open>whitespace b\<close>
  shows \<open>\<not> property b
    \<and> parse_name (update_buffer r) = Inl (expected_property b)
    \<and> read_packages r out = (Inl (expected_property b), out)
    \<and> exit_status (fst (read_packages r out)) = 1\<close>
proof -
  have np: \<open>\<not> property b\<close>
    using assms(3) by (rule whitespace_not_property)
  have p1: \<open>pending (update_buffer r) = pre @ b # rest\<close>
    using pending_Cons(4) [OF assms(1)] .
  have pn: \<open>parse_name (update_buffer r) = Inl (expected_property b)\<close>
    using parse_name_pending [OF p1 assms(2)] np by simp
  then have \<open>parse_dependency r out = (Inl (expected_property b), out)\<close>
    by (simp add: parse_dependency_at_header [OF assms(1)] parse_dependency_details_def)
  then have \<open>read_packages r out = (Inl (expected_property b), out)\<close>
    by (simp add: read_packages_step [OF assms(1)])
  with np pn show ?thesis by (simp add: exit_status_def)
qed

theorem blank_before_name_fatal_witness:
  \<open>\<not> property ''''
    \<and> read_packages (StdinReader [''[[package]]'', ''version = "1"'', '''', ''name = "x"'']) ''''
        = (Inl (expected_property ''''), '''')
    \<and> exit_status (fst (read_packages
          (StdinReader [''[[package]]'', ''version = "1"'', '''', ''name = "x"'']) '''')) = 1\<close>
proof -
  let ?r = \<open>StdinReader [''[[package]]'', ''version = "1"'', '''', ''name = "x"'']\<close>
  have a1: \<open>pending ?r = header # [''version = "1"''] @ '''' # [''name = "x"'']\<close>
    by (simp add: pending_eval)
  have a2: \<open>\<forall>p\<in>set [''version = "1"'']. property p \<and> name_property p = None\<close>
    by (simp add: pattern_eval)
  have a3: \<open>whitespace ''''\<close>
    by (simp add: whitespace_def)
  from blank_before_name_fatal [OF a1 a2 a3, of \<open>''''\<close>] show ?thesis by (simp add: exit_status_def)
qed

text \<open>
  C6: in a record whose name line is followed, up to the end of input, only by lines that are
  neither a header nor an sdist line with a hash, \<^verbatim>\<open>parse_sdist\<close> reaches the end of
  input and raises; the run ends with that error, a non-zero status and nothing more written.
\<close>

theorem eof_in_sdist_scan_fatal:
  assumes \<open>pending r = header # pre @ nl # post\<close>
    and \<open>\<forall>p\<in>set pre. property p \<and> name_property p = None\<close>
    and \<open>name_property nl = Some v\<close>
    and \<open>\<forall>p\<in>set post. p \<noteq> header \<and> sdist_property p = None\<close>
  shows \<open>parse_sdist (advance (length pre + 2) r) = Inl sdist_eof
    \<and> read_packages r out = (Inl sdist_eof, out)
    \<and> exit_status (fst (read_packages r out)) = 1\<close>
proof -
  let ?r1 = \<open>update_buffer r\<close>
  let ?r2 = \<open>advance (Suc (length pre)) ?r1\<close>
  have p1: \<open>pending ?r1 = pre @ nl # post\<close>
    using pending_Cons(4) [OF assms(1)] .
  have pn: \<open>parse_name ?r1 = Inr (replace_hyphens v, ?r2)\<close>
    using parse_name_pending [OF p1 assms(2)] assms(3) name_property_is_property [OF assms(3)]
    by simp
  have \<open>pending ?r1 = (pre @ [nl]) @ post\<close>
    using p1 by simp
  from pending_advance [OF this] have p2: \<open>pending ?r2 = post @ []\<close>
    by simp
  have ps: \<open>parse_sdist ?r2 = Inl sdist_eof\<close>
    using parse_sdist_pending [OF p2 assms(4)] by simp
  have \<open>parse_dependency r out = (Inl sdist_eof, out)\<close>
    using pn ps
    by (simp add: parse_dependency_at_header [OF assms(1)] parse_dependency_details_def)
  then have \<open>read_packages r out = (Inl sdist_eof, out)\<close>
    by (simp add: read_packages_step [OF assms(1)])
  with ps show ?thesis by (simp add: exit_status_def)
qed

theorem eof_in_sdist_scan_fatal_witness:
  \<open>read_packages (StdinReader [''[[package]]'', ''version = "1"'', ''name = "x"'', ''a = b'']) ''''
        = (Inl sdist_eof, '''')
    \<and> exit_status (fst (read_packages
          (StdinReader [''[[package]]'', ''version = "1"'', ''name = "x"'', ''a = b'']) '''')) = 1\<close>
proof -
  let ?r = \<open>StdinReader [''[[package]]'', ''version = "1"'', ''name = "x"'', ''a = b'']\<close>
  have a1: \<open>pending ?r = header # [''version = "1"''] @ ''name = "x"'' # [''a = b'']\<close>
    by (simp add: pending_eval)
  have a2: \<open>\<forall>p\<in>set [''version = "1"'']. property p \<and> name_property p = None\<close>
    by (simp add: pattern_eval)
  have a3: \<open>name_property ''name = "x"'' = Some ''x''\<close>
    by (simp add: pattern_eval newline_def)
  have a4: \<open>\<forall>p\<in>set [''a = b'']. p \<noteq> header \<and> sdist_property p = None\<close>
    by (simp add: pattern_eval)
  from eof_in_sdist_scan_fatal [OF a1 a2 a3 a4, of \<open>''''\<close>] show ?thesis
    by (simp add: exit_status_def)
qed

subsection \<open>Records without a descriptor\<close>



text \<open>
  C2: when the sdist line \<open>sd\<close> of a record stands before its name line, and no other
  sdist line with a hash follows the name, \<^verbatim>\<open>parse_name\<close> consumes \<open>sd\<close> with the
  other properties; the reader handed to \<^verbatim>\<open>parse_sdist\<close> holds only the lines after
  the name, no descriptor is captured, and the record writes nothing.
\<close>

theorem sdist_before_name_missed:
  assumes \<open>pending r = header # p1 @ sd # p2 @ nl # post @ rest\<close>
    and \<open>sdist_property sd = Some d\<close>
    and \<open>\<forall>p\<in>set (p1 @ p2). property p \<and> name_property p = None\<close>
    and \<open>name_property nl = Some v\<close>
    and \<open>\<forall>p\<in>set post. p \<noteq> header \<and> sdist_property p = None\<close>
    and \<open>rest = [] \<or> hd rest = header\<close>
  shows \<open>parse_name (update_buffer r)
      = Inr (replace_hyphens v, advance (length p1 + length p2 + 3) r)
    \<and> pending (advance (length p1 + length p2 + 3) r) = post @ rest
    \<and> (\<forall>d' r'. parse_sdist (advance (length p1 + length p2 + 3) r) \<noteq> Inr (Some d', r'))
    \<and> snd (parse_dependency r out) = out\<close>
proof -
  let ?pre = \<open>p1 @ sd # p2\<close>
  let ?r1 = \<open>update_buffer r\<close>
  let ?r2 = \<open>advance (Suc (length ?pre)) ?r1\<close>
  have pre: \<open>\<forall>p\<in>set ?pre. property p \<and> name_property p = None\<close>
    using assms(3) sdist_property_shape(1,2) [OF assms(2)] by auto
  have p1: \<open>pending ?r1 = ?pre @ nl # post @ rest\<close>
    using pending_Cons(4) [OF assms(1)] by simp
  have pn: \<open>parse_name ?r1 = Inr (replace_hyphens v, ?r2)\<close>
    using parse_name_pending [OF p1 pre] assms(4) name_property_is_property [OF assms(4)]
    by simp
  have \<open>pending ?r1 = (?pre @ [nl]) @ post @ rest\<close>
    using p1 by simp
  from pending_advance [OF this] have p2: \<open>pending ?r2 = post @ rest\<close>
    by simp
  have eq: \<open>advance (length p1 + length p2 + 3) r = ?r2\<close>
  proof -
    have \<open>length p1 + length p2 + 3 = Suc (Suc (length ?pre))\<close> by simp
    then show ?thesis by (simp only: advance.simps)
  qed
  have ps: \<open>parse_sdist ?r2 = (case rest of [] \<Rightarrow> Inl sdist_eof
      | l # ls \<Rightarrow> Inr (None, advance (length post) ?r2))\<close>
    using parse_sdist_pending [OF p2 assms(5)] assms(6) by (cases rest) simp_all
  then have no: \<open>\<forall>d' r'. parse_sdist ?r2 \<noteq> Inr (Some d', r')\<close>
    by (cases rest) simp_all
  have \<open>snd (parse_dependency r out) = out\<close>
    using pn ps
    by (cases rest)
      (simp_all add: parse_dependency_at_header [OF assms(1)] parse_dependency_details_def)
  with pn p2 no show ?thesis unfolding eq by simp
qed

theorem sdist_before_name_missed_witness:
  \<open>parse_name (update_buffer (StdinReader [''[[package]]'',
        ''sdist = { url = "u", hash = "sha256:h", size = 1 }'', ''name = "x"'', ''a = b'',
        ''[[package]]'', ''name = "y"'']))
     = Inr (''x'', advance 3 (StdinReader [''[[package]]'',
        ''sdist = { url = "u", hash = "sha256:h", size = 1 }'', ''name = "x"'', ''a = b'',
        ''[[package]]'', ''name = "y"'']))
   \<and> pending (advance 3 (StdinReader [''[[package]]'',
        ''sdist = { url = "u", hash = "sha256:h", size = 1 }'', ''name = "x"'', ''a = b'',
        ''[[package]]'', ''name = "y"''])) = [''a = b'', ''[[package]]'', ''name = "y"'']
   \<and> snd (parse_dependency (StdinReader [''[[package]]'',
        ''sdist = { url = "u", hash = "sha256:h", size = 1 }'', ''name = "x"'', ''a = b'',
        ''[[package]]'', ''name = "y"'']) '''') = ''''\<close>
proof -
  let ?r = \<open>StdinReader [''[[package]]'',
        ''sdist = { url = "u", hash = "sha256:h", size = 1 }'', ''name = "x"'', ''a = b'',
        ''[[package]]'', ''name = "y"'']\<close>
  have a1: \<open>pending ?r = header # [] @ ''sdist = { url = "u", hash = "sha256:h", size = 1 }'' # []
      @ ''name = "x"'' # [''a = b''] @ [''[[package]]'', ''name = "y"'']\<close>
    by (simp add: pending_eval)
  have a2: \<open>sdist_property ''sdist = { url = "u", hash = "sha256:h", size = 1 }'' = Some (''u'', ''h'')\<close>
    by (simp add: pattern_eval newline_def)
  have a3: \<open>\<forall>p\<in>set ([] @ []). property p \<and> name_property p = None\<close>
    by simp
  have a4: \<open>name_property ''name = "x"'' = Some ''x''\<close>
    by (simp add: pattern_eval newline_def)
  have a5: \<open>\<forall>p\<in>set [''a = b'']. p \<noteq> header \<and> sdist_property p = None\<close>
    by (simp add: pattern_eval)
  have a6: \<open>[''[[package]]'', ''name = "y"''] = [] \<or> hd [''[[package]]'', ''name = "y"''] = header\<close>
    by (simp add: header_def)
  from sdist_before_name_missed [OF a1 a2 a3 a4 a5 a6, of \<open>''''\<close>] show ?thesis
    by (simp add: replace_hyphens_def)
qed

lemma not_whitespace_header: \<open>\<not> whitespace header\<close>
  by (simp add: whitespace_def header_def is_space_def)

lemma pending_StdinReader_lines:
  assumes \<open>\<forall>l\<in>set ls. newline \<notin> set l\<close>
  shows \<open>pending (StdinReader ls) = ls\<close>
proof -
  have \<open>map rstrip_newlines ls = ls\<close>
    using assms by (intro map_idI) (simp add: rstrip_newlines_id)
  then show ?thesis by (simp add: pending_StdinReader)
qed



subsection \<open>Inputs without a package header\<close>




subsection \<open>One block per well-formed record\<close>

text \<open>
  A record in the shape the walker expects: the header, property lines other than the name,
  the name line, lines that are neither a header nor an sdist line with a hash, the sdist
  line (url, hash and the rest of its inline table up to the closing brace), and the lines
  up to the next header. No line holds a newline.
\<close>

record package =
  fields_before :: \<open>string list\<close>
  name_value :: string
  lines_between :: \<open>string list\<close>
  sdist_url :: string
  sdist_hash :: string
  sdist_rest :: string
  lines_after :: \<open>string list\<close>

definition name_line :: \<open>string \<Rightarrow> string\<close> where
  \<open>name_line n = ''name = "'' @ n @ ''"''\<close>

definition sdist_line :: \<open>package \<Rightarrow> string\<close> where
  \<open>sdist_line p = sdist_text (sdist_url p) (sdist_hash p) ('', '' @ sdist_rest p)\<close>

definition package_lines :: \<open>package \<Rightarrow> string list\<close> where
  \<open>package_lines p =
     header # fields_before p @ name_line (name_value p) # lines_between p
       @ sdist_line p # lines_after p\<close>

definition well_formed :: \<open>package \<Rightarrow> bool\<close> where
  \<open>well_formed p \<longleftrightarrow>
     (\<forall>l\<in>set (package_lines p). newline \<notin> set l)
     \<and> (\<forall>l\<in>set (fields_before p). property l \<and> name_property l = None)
     \<and> (\<forall>l\<in>set (lines_between p). l \<noteq> header \<and> sdist_property l = None)
     \<and> dquote \<notin> set (sdist_url p) \<and> dquote \<notin> set (sdist_hash p)
     \<and> CHR ''}'' \<in> set (sdist_rest p)
     \<and> (\<forall>l\<in>set (lines_after p). l \<noteq> header)\<close>

text \<open>
  What the output is to be, stated apart from the walker's own functions. \<open>m\<close> is
  the name \<open>n\<close> with every hyphen replaced by an underscore when it has the length of
  \<open>n\<close>, an underscore wherever \<open>n\<close> has a hyphen, and the character of \<open>n\<close>
  everywhere else. The block of a record under the name \<open>m\<close> is the template of the
  output format, written out, with the empty line after it.
\<close>

definition hyphens_replaced :: \<open>string \<Rightarrow> string \<Rightarrow> bool\<close> where
  \<open>hyphens_replaced n m \<longleftrightarrow>
     length m = length n
     \<and> (\<forall>i<length n. (n ! i = CHR ''-'' \<longrightarrow> m ! i = CHR ''_'')
                       \<and> (n ! i \<noteq> CHR ''-'' \<longrightarrow> m ! i = n ! i))\<close>

definition package_block :: \<open>package \<Rightarrow> string \<Rightarrow> string\<close> where
  \<open>package_block p m =
     ''  resource "'' @ m @ ''" do\<newline>'' @
     ''    url "'' @ sdist_url p @ ''"\<newline>'' @
     ''    sha256 "'' @ sdist_hash p @ ''"\<newline>'' @
     ''  end\<newline>'' @
     ''\<newline>''\<close>

text \<open>What the walker writes for a record.\<close>

definition emitted_block :: \<open>package \<Rightarrow> string\<close> where
  \<open>emitted_block p =
     print (resource_block (replace_hyphens (name_value p)) (sdist_url p) (sdist_hash p)) ''''\<close>

lemma hyphens_replaced_unique:
  assumes \<open>hyphens_replaced n m\<close>
  shows \<open>m = replace_hyphens n\<close>
proof (rule nth_equalityI)
  show \<open>length m = length (replace_hyphens n)\<close>
    using assms by (simp add: hyphens_replaced_def replace_hyphens_def)
next
  fix i
  assume \<open>i < length m\<close>
  with assms have i: \<open>i < length n\<close>
    by (simp add: hyphens_replaced_def)
  with assms show \<open>m ! i = replace_hyphens n ! i\<close>
    by (simp add: hyphens_replaced_def replace_hyphens_def)
qed

lemma emitted_block_eq:
  assumes \<open>hyphens_replaced (name_value p) m\<close>
  shows \<open>emitted_block p = package_block p m\<close>
  unfolding hyphens_replaced_unique [OF assms]
  by (simp add: emitted_block_def package_block_def print_def resource_block_def)

lemma name_property_name_line:
  assumes \<open>newline \<notin> set n\<close>
  shows \<open>name_property (name_line n) = Some n\<close>
proof -
  have l: \<open>last (name_line n) \<noteq> newline\<close>
    by (simp add: name_line_def newline_def)
  have \<open>name_line n = ''name = "'' @ (n @ [dquote])\<close>
    by (simp add: name_line_def dquote_def)
  then have \<open>literal ''name = "'' (name_line n) = Some (n @ [dquote])\<close>
    by (simp only: literal_append)
  with l assms show ?thesis
    by (simp add: name_property_def)
qed

lemma sdist_property_sdist_line:
  assumes \<open>dquote \<notin> set (sdist_url p)\<close> and \<open>dquote \<notin> set (sdist_hash p)\<close>
    and \<open>CHR ''}'' \<in> set (sdist_rest p)\<close> and \<open>newline \<notin> set (sdist_line p)\<close>
  shows \<open>sdist_property (sdist_line p) = Some (sdist_url p, sdist_hash p)\<close>
proof -
  have \<open>newline \<notin> set (sdist_rest p)\<close>
    using assms(4) by (simp add: sdist_line_def sdist_text_def)
  then have \<open>takeWhile (\<lambda>c. c \<noteq> newline) (sdist_rest p) = sdist_rest p\<close>
    by (intro takeWhile_eq_all_conv [THEN iffD2]) auto
  with assms(3) have br: \<open>CHR ''}'' \<in> set (takeWhile (\<lambda>c. c \<noteq> newline) (sdist_rest p))\<close>
    by (simp only:)
  have \<open>literal '', '' ('', '' @ sdist_rest p) = Some (sdist_rest p)\<close>
    by (rule literal_append)
  with br show ?thesis
    unfolding sdist_line_def
    by (simp only: sdist_property_sdist_text [OF assms(1,2)] option.case if_True)
qed

lemma parse_dependency_package:
  assumes \<open>pending r = package_lines p @ rest\<close>
    and \<open>well_formed p\<close>
    and \<open>rest = [] \<or> hd rest = header\<close>
  shows \<open>parse_dependency r out
     = (Inr (advance (length (package_lines p)) r), out @ emitted_block p)\<close>
proof -
  let ?nl = \<open>name_line (name_value p)\<close>
  let ?sd = \<open>sdist_line p\<close>
  let ?r1 = \<open>update_buffer r\<close>
  let ?r2 = \<open>advance (Suc (length (fields_before p))) ?r1\<close>
  let ?r3 = \<open>advance (Suc (length (lines_between p))) ?r2\<close>
  let ?r4 = \<open>advance (length (lines_after p)) ?r3\<close>
  from assms(2) have nls: \<open>newline \<notin> set ?nl\<close> \<open>newline \<notin> set ?sd\<close>
    and wf_before: \<open>\<forall>l\<in>set (fields_before p). property l \<and> name_property l = None\<close>
    and wf_between: \<open>\<forall>l\<in>set (lines_between p). l \<noteq> header \<and> sdist_property l = None\<close>
    and wf_q: \<open>dquote \<notin> set (sdist_url p)\<close> \<open>dquote \<notin> set (sdist_hash p)\<close>
      \<open>CHR ''}'' \<in> set (sdist_rest p)\<close>
    and wf_after: \<open>\<forall>l\<in>set (lines_after p). l \<noteq> header\<close>
    by (simp_all add: well_formed_def package_lines_def)
  have \<open>newline \<notin> set (name_value p)\<close>
    using nls(1) by (simp add: name_line_def)
  then have nm: \<open>name_property ?nl = Some (name_value p)\<close>
    by (rule name_property_name_line)
  have sm: \<open>sdist_property ?sd = Some (sdist_url p, sdist_hash p)\<close>
    using wf_q nls(2) by (rule sdist_property_sdist_line)
  have p0: \<open>pending r = header # (fields_before p @ ?nl # lines_between p @ ?sd # lines_after p @ rest)\<close>
    using assms(1) by (simp add: package_lines_def)
  have p1: \<open>pending ?r1 = fields_before p @ ?nl # (lines_between p @ ?sd # lines_after p @ rest)\<close>
    using pending_Cons(4) [OF p0] .
  have pn: \<open>parse_name ?r1 = Inr (replace_hyphens (name_value p), ?r2)\<close>
    using parse_name_pending [OF p1 wf_before] nm name_property_is_property [OF nm] by simp
  have \<open>pending ?r1 = (fields_before p @ [?nl]) @ (lines_between p @ ?sd # lines_after p @ rest)\<close>
    using p1 by simp
  from pending_advance [OF this]
  have p2: \<open>pending ?r2 = lines_between p @ ?sd # (lines_after p @ rest)\<close>
    by simp
  have ps: \<open>parse_sdist ?r2 = Inr (Some (sdist_url p, sdist_hash p), ?r3)\<close>
    using parse_sdist_pending [OF p2 wf_between] sm sdist_property_shape(3) [OF sm] by simp
  have \<open>pending ?r2 = (lines_between p @ [?sd]) @ (lines_after p @ rest)\<close>
    using p2 by simp
  from pending_advance [OF this] have p3: \<open>pending ?r3 = lines_after p @ rest\<close>
    by simp
  have sr: \<open>skip_rest ?r3 = Inr ?r4\<close>
    using skip_rest_pending [OF p3 wf_after assms(3)] .
  have len: \<open>length (package_lines p)
      = Suc (Suc (length (fields_before p)) + Suc (length (lines_between p)) + length (lines_after p))\<close>
    by (simp add: package_lines_def)
  have eq: \<open>advance (length (package_lines p)) r = ?r4\<close>
    unfolding len by (simp only: advance.simps advance_add)
  have blk: \<open>print (resource_block (replace_hyphens (name_value p)) (sdist_url p) (sdist_hash p)) out
      = out @ emitted_block p\<close>
    by (simp add: print_def emitted_block_def)
  show ?thesis
    unfolding eq
    using pn ps sr blk
    by (simp add: parse_dependency_at_header [OF p0] parse_dependency_details_def)
qed

lemma package_lines_start:
  \<open>concat (map package_lines ps) = [] \<or> hd (concat (map package_lines ps)) = header\<close>
  by (cases ps) (simp_all add: package_lines_def)

lemma read_packages_all:
  assumes \<open>pending r = concat (map package_lines ps)\<close>
    and \<open>\<forall>p\<in>set ps. well_formed p\<close>
  shows \<open>read_packages r out
     = (Inr (advance (length (concat (map package_lines ps))) r),
        out @ concat (map emitted_block ps))\<close>
  using assms
proof (induction ps arbitrary: r out)
  case Nil
  then show ?case by (simp add: read_packages_done)
next
  case (Cons p ps)
  let ?rest = \<open>concat (map package_lines ps)\<close>
  let ?r' = \<open>advance (length (package_lines p)) r\<close>
  from Cons.prems(1) have pr: \<open>pending r = package_lines p @ ?rest\<close> by simp
  from Cons.prems(2) have wf: \<open>well_formed p\<close> \<open>\<forall>q\<in>set ps. well_formed q\<close> by simp_all
  have pd: \<open>parse_dependency r out = (Inr ?r', out @ emitted_block p)\<close>
    using parse_dependency_package [OF pr wf(1) package_lines_start] .
  have p': \<open>pending ?r' = ?rest\<close>
    using pending_advance [OF pr] .
  have hd: \<open>pending r = header # tl (package_lines p @ ?rest)\<close>
    using pr by (simp add: package_lines_def)
  have \<open>read_packages r out = read_packages ?r' (out @ emitted_block p)\<close>
    by (simp add: read_packages_step [OF hd] pd)
  also have \<open>\<dots> = (Inr (advance (length ?rest) ?r'), (out @ emitted_block p) @ concat (map emitted_block ps))\<close>
    using Cons.IH [OF p' wf(2)] .
  finally show ?case
    by (simp add: advance_add)
qed

text \<open>
  C1: on an input made of well-formed records the program ends with status 0, and its output
  is the blocks of the records in input order, one each: the template with the url and the
  hash as they stand and, as the name, the quoted name value with every hyphen replaced by
  an underscore (\<open>nm p\<close> stands for any string that is so related to the name of
  \<open>p\<close>), each followed by an empty line.
\<close>

theorem one_block_per_record:
  assumes \<open>\<forall>p\<in>set ps. well_formed p\<close>
    and \<open>\<forall>p\<in>set ps. hyphens_replaced (name_value p) (nm p)\<close>
  shows \<open>snd (main (concat (map package_lines ps)))
      = concat (map (\<lambda>p. package_block p (nm p)) ps)
    \<and> exit_status (fst (main (concat (map package_lines ps)))) = 0\<close>
proof -
  let ?ls = \<open>concat (map package_lines ps)\<close>
  let ?r = \<open>StdinReader ?ls\<close>
  have \<open>\<forall>l\<in>set ?ls. newline \<notin> set l\<close>
    using assms(1) by (auto simp: well_formed_def)
  then have p: \<open>pending ?r = ?ls\<close>
    by (rule pending_StdinReader_lines)
  then have p0: \<open>pending ?r = [] @ ?ls\<close> by simp
  have stop: \<open>?ls = [] \<or> \<not> (whitespace (hd ?ls) \<or> property (hd ?ls))\<close>
    using package_lines_start [of ps] not_whitespace_header not_property_header by auto
  have \<open>skip_initial_fields ?r = Inr (advance (length ([] :: string list)) ?r)\<close>
    using p0 _ stop by (rule skip_initial_fields_pending) simp
  then have m: \<open>main ?ls = read_packages ?r ''''\<close>
    by (simp add: main_def read_lockfile_def)
  have \<open>map emitted_block ps = map (\<lambda>p. package_block p (nm p)) ps\<close>
    using assms(2) by (intro map_cong refl) (simp add: emitted_block_eq)
  with m read_packages_all [OF p assms(1), of \<open>''''\<close>] show ?thesis
    by (simp add: exit_status_def)
qed

theorem one_block_per_record_witness:
  \<open>snd (main [''[[package]]'', ''version = "1.0"'', ''name = "foo-bar-baz"'', ''source = { registry = "r" }'',
               ''sdist = { url = "https://x/y-z.tar.gz", hash = "sha256:abc123", size = 10 }'',
               ''wheels = ['', '']'',
               ''[[package]]'', ''name = "b"'', ''sdist = { url = "u", hash = "sha256:0f", }''])
     = ''  resource "foo_bar_baz" do\<newline>    url "https://x/y-z.tar.gz"\<newline>    sha256 "abc123"\<newline>  end\<newline>\<newline>''
       @ ''  resource "b" do\<newline>    url "u"\<newline>    sha256 "0f"\<newline>  end\<newline>\<newline>''
   \<and> exit_status (fst (main [''[[package]]'', ''version = "1.0"'', ''name = "foo-bar-baz"'', ''source = { registry = "r" }'',
               ''sdist = { url = "https://x/y-z.tar.gz", hash = "sha256:abc123", size = 10 }'',
               ''wheels = ['', '']'',
               ''[[package]]'', ''name = "b"'', ''sdist = { url = "u", hash = "sha256:0f", }''])) = 0\<close>
proof -
  let ?p = \<open>\<lparr>fields_before = [''version = "1.0"''], name_value = ''foo-bar-baz'',
             lines_between = [''source = { registry = "r" }''],
             sdist_url = ''https://x/y-z.tar.gz'', sdist_hash = ''abc123'',
             sdist_rest = ''size = 10 }'', lines_after = [''wheels = ['', '']'']\<rparr>\<close>
  let ?q = \<open>\<lparr>fields_before = [], name_value = ''b'', lines_between = [],
             sdist_url = ''u'', sdist_hash = ''0f'', sdist_rest = ''}'', lines_after = []\<rparr>\<close>
  let ?nm = \<open>\<lambda>p :: package. if name_value p = ''b'' then ''b'' else ''foo_bar_baz''\<close>
  have wp: \<open>well_formed ?p\<close>
    by (simp add: well_formed_def package_lines_def name_line_def sdist_line_def sdist_text_def
        pattern_eval newline_def)
  have wq: \<open>well_formed ?q\<close>
    by (simp add: well_formed_def package_lines_def name_line_def sdist_line_def sdist_text_def
        pattern_eval newline_def)
  from wp wq have wf: \<open>\<forall>p\<in>set [?p, ?q]. well_formed p\<close>
    by simp
  have n1: \<open>hyphens_replaced ''foo-bar-baz'' ''foo_bar_baz''\<close>
    by (simp add: hyphens_replaced_def All_less_Suc)
  have n2: \<open>hyphens_replaced ''b'' ''b''\<close>
    by (simp add: hyphens_replaced_def)
  from n1 n2 have nm: \<open>\<forall>p\<in>set [?p, ?q]. hyphens_replaced (name_value p) (?nm p)\<close>
    by simp
  from one_block_per_record [OF wf nm] show ?thesis
    by (simp add: package_lines_def package_block_def name_line_def sdist_line_def sdist_text_def
        header_def)
qed

end
